theory Spec2Isabelle
  imports Complex_Main
begin

section \<open>JavaScript numbers\<close>

text \<open>
  The values of \<open>app.js\<close> are JavaScript numbers. A number is modelled as a real, or
  one of the three special values of IEEE 754 that the arithmetic of the program can
  produce: both infinities and NaN. Finite arithmetic is exact arithmetic over the
  reals: the rounding of double precision (and of the \<open>Float32Array\<close> that holds the
  autocorrelation) and overflow are not modelled, and zero carries no sign (a division of a
  non-zero number by zero gives the infinity of the sign of the dividend). A read of
  \<open>undefined\<close> that reaches arithmetic or a comparison behaves as NaN there, and is
  modelled as NaN.
\<close>

datatype jsnum = Fin real | PInf | NInf | NaN

fun jneg :: "jsnum \<Rightarrow> jsnum" where
  "jneg (Fin a) = Fin (- a)"
| "jneg PInf = NInf"
| "jneg NInf = PInf"
| "jneg NaN = NaN"

fun jadd :: "jsnum \<Rightarrow> jsnum \<Rightarrow> jsnum" where
  "jadd NaN _ = NaN"
| "jadd _ NaN = NaN"
| "jadd (Fin a) (Fin b) = Fin (a + b)"
| "jadd PInf NInf = NaN"
| "jadd NInf PInf = NaN"
| "jadd PInf _ = PInf"
| "jadd NInf _ = NInf"
| "jadd (Fin a) PInf = PInf"
| "jadd (Fin a) NInf = NInf"

definition jsub :: "jsnum \<Rightarrow> jsnum \<Rightarrow> jsnum" where
  "jsub a b = jadd a (jneg b)"

text \<open>The infinity of the sign of a non-zero real; NaN at zero.\<close>

definition inf_of_sign :: "real \<Rightarrow> jsnum" where
  "inf_of_sign a = (if a = 0 then NaN else if 0 < a then PInf else NInf)"

fun jmul :: "jsnum \<Rightarrow> jsnum \<Rightarrow> jsnum" where
  "jmul NaN _ = NaN"
| "jmul _ NaN = NaN"
| "jmul (Fin a) (Fin b) = Fin (a * b)"
| "jmul (Fin a) PInf = inf_of_sign a"
| "jmul (Fin a) NInf = inf_of_sign (- a)"
| "jmul PInf (Fin b) = inf_of_sign b"
| "jmul NInf (Fin b) = inf_of_sign (- b)"
| "jmul PInf PInf = PInf"
| "jmul NInf NInf = PInf"
| "jmul PInf NInf = NInf"
| "jmul NInf PInf = NInf"

fun jdiv :: "jsnum \<Rightarrow> jsnum \<Rightarrow> jsnum" where
  "jdiv NaN _ = NaN"
| "jdiv _ NaN = NaN"
| "jdiv (Fin a) (Fin b) = (if b = 0 then inf_of_sign a else Fin (a / b))"
| "jdiv (Fin a) PInf = Fin 0"
| "jdiv (Fin a) NInf = Fin 0"
| "jdiv PInf (Fin b) = (if 0 \<le> b then PInf else NInf)"
| "jdiv NInf (Fin b) = (if 0 \<le> b then NInf else PInf)"
| "jdiv PInf _ = NaN"
| "jdiv NInf _ = NaN"

text \<open>The comparisons \<open><\<close> and \<open>>\<close>: false as soon as one side is NaN.\<close>

fun jlt :: "jsnum \<Rightarrow> jsnum \<Rightarrow> bool" where
  "jlt (Fin a) (Fin b) = (a < b)"
| "jlt (Fin a) PInf = True"
| "jlt NInf (Fin b) = True"
| "jlt NInf PInf = True"
| "jlt _ _ = False"

definition jgt :: "jsnum \<Rightarrow> jsnum \<Rightarrow> bool" where
  "jgt a b = jlt b a"

text \<open>
  Truthiness of a number (\<open>!x\<close>, \<open>x ? a : b\<close>, \<open>x || y\<close>): zero and NaN are
  falsy, every other number is truthy. \<open>null\<close> and \<open>undefined\<close> are falsy too.
\<close>

fun truthy :: "jsnum \<Rightarrow> bool" where
  "truthy (Fin a) = (a \<noteq> 0)"
| "truthy NaN = False"
| "truthy _ = True"

definition jor :: "jsnum \<Rightarrow> jsnum \<Rightarrow> jsnum" where
  "jor a b = (if truthy a then a else b)"

text \<open>\<open>Math.sqrt\<close>, \<open>Math.log2\<close>, \<open>Math.round\<close> and \<open>Math.pow(2, x)\<close>.\<close>

fun jsqrt :: "jsnum \<Rightarrow> jsnum" where
  "jsqrt (Fin a) = (if a < 0 then NaN else Fin (sqrt a))"
| "jsqrt PInf = PInf"
| "jsqrt _ = NaN"

fun jlog2 :: "jsnum \<Rightarrow> jsnum" where
  "jlog2 (Fin a) = (if a < 0 then NaN else if a = 0 then NInf else Fin (log 2 a))"
| "jlog2 PInf = PInf"
| "jlog2 _ = NaN"

text \<open>\<open>Math.round\<close> rounds to the nearest integer, a half towards plus infinity.\<close>

fun jround :: "jsnum \<Rightarrow> jsnum" where
  "jround (Fin a) = Fin (of_int \<lfloor>a + 1 / 2\<rfloor>)"
| "jround x = x"

fun jpow2 :: "jsnum \<Rightarrow> jsnum" where
  "jpow2 (Fin a) = Fin (2 powr a)"
| "jpow2 PInf = PInf"
| "jpow2 NInf = Fin 0"
| "jpow2 NaN = NaN"

section \<open>Constants\<close>

definition smoothAlpha :: real where "smoothAlpha = 2 / 10"
definition MIN_RMS :: real where "MIN_RMS = 1 / 100"
definition MIN_FREQUENCY :: real where "MIN_FREQUENCY = 80"
definition MAX_FREQUENCY :: real where "MAX_FREQUENCY = 1500"
definition A4 :: real where "A4 = 440"

section \<open>Note math\<close>



definition freqToMidi :: "jsnum \<Rightarrow> jsnum" where
  "freqToMidi freq = jround (jadd (jmul (Fin 12) (jlog2 (jdiv freq (Fin A4)))) (Fin 69))"

definition midiToFreq :: "jsnum \<Rightarrow> jsnum" where
  "midiToFreq midi = jmul (Fin A4) (jpow2 (jdiv (jsub midi (Fin 69)) (Fin 12)))"

definition centsOff :: "jsnum \<Rightarrow> jsnum \<Rightarrow> jsnum" where
  "centsOff freq target = jround (jmul (Fin 1200) (jlog2 (jdiv freq target)))"






section \<open>Pitch detection: autocorrelation with peak interpolation\<close>

text \<open>The sum of the squares of the samples (the first loop).\<close>

definition sum_squares :: "real list \<Rightarrow> real" where
  "sum_squares buf = foldl (\<lambda>rms x. rms + x * x) 0 buf"

definition rms_of :: "real list \<Rightarrow> jsnum" where
  "rms_of buf = jsqrt (jdiv (Fin (sum_squares buf)) (Fin (real (length buf))))"

text \<open>The autocorrelation \<open>c\<close>: for each lag, the inner loop sums the products.\<close>

definition corr_at :: "real list \<Rightarrow> nat \<Rightarrow> real" where
  "corr_at buf lag =
     foldl (\<lambda>sum i. sum + buf ! i * buf ! (i + lag)) 0 [0..<length buf - lag]"

definition autocorr :: "real list \<Rightarrow> real list" where
  "autocorr buf = map (corr_at buf) [0..<length buf]"

text \<open>The \<open>while\<close> loop that walks \<open>d\<close> down the first slope.\<close>

function skip_slope :: "real list \<Rightarrow> nat \<Rightarrow> nat" where
  "skip_slope c d =
     (if int d < int (length c) - 1 \<and> c ! d > c ! (d + 1) then skip_slope c (d + 1) else d)"
  by pat_completeness auto
termination
  by (relation "measure (\<lambda>(c, d). length c - d)") auto

text \<open>The \<open>for\<close> loop that looks for the first largest value from \<open>i\<close> on.\<close>

function find_max :: "real list \<Rightarrow> nat \<Rightarrow> real \<times> int \<Rightarrow> real \<times> int" where
  "find_max c i (mx, maxPos) =
     (if i < length c
      then (if c ! i > mx then find_max c (i + 1) (c ! i, int i) else find_max c (i + 1) (mx, maxPos))
      else (mx, maxPos))"
  by pat_completeness auto
termination
  by (relation "measure (\<lambda>(c, i, p). length c - i)") auto

definition find_peak :: "real list \<Rightarrow> int" where
  "find_peak c = snd (find_max c (skip_slope c 0) (- 1, - 1))"

text \<open>A read of the array \<open>c\<close>: \<open>undefined\<close> outside of it.\<close>

definition read_at :: "real list \<Rightarrow> int \<Rightarrow> jsnum" where
  "read_at c i = (if 0 \<le> i \<and> i < int (length c) then Fin (c ! nat i) else NaN)"

text \<open>
  The three values around the peak, the denominator of the shift, the shift and the
  interpolated peak, as the source computes them.
\<close>

definition y1_of :: "real list \<Rightarrow> int \<Rightarrow> jsnum" where
  "y1_of c maxPos = read_at c (maxPos - 1)"

definition y2_of :: "real list \<Rightarrow> int \<Rightarrow> jsnum" where
  "y2_of c maxPos = read_at c maxPos"

definition y3_of :: "real list \<Rightarrow> int \<Rightarrow> jsnum" where
  "y3_of c maxPos = jor (read_at c (maxPos + 1)) (y2_of c maxPos)"

definition shift_den :: "real list \<Rightarrow> int \<Rightarrow> jsnum" where
  "shift_den c maxPos =
     jmul (Fin 2)
       (jsub (jsub (jmul (Fin 2) (y2_of c maxPos)) (y1_of c maxPos)) (y3_of c maxPos))"

definition shift_of :: "real list \<Rightarrow> int \<Rightarrow> jsnum" where
  "shift_of c maxPos = jdiv (jsub (y3_of c maxPos) (y1_of c maxPos)) (shift_den c maxPos)"

definition peak_of :: "real list \<Rightarrow> int \<Rightarrow> jsnum" where
  "peak_of c maxPos = jadd (Fin (real_of_int maxPos)) (shift_of c maxPos)"

definition detectPitchAutoCorr :: "real list \<Rightarrow> real \<Rightarrow> jsnum option" where
  "detectPitchAutoCorr buf sampleRate =
     (if jlt (rms_of buf) (Fin MIN_RMS) then None
      else let c = autocorr buf;
               maxPos = find_peak c
           in if maxPos \<le> 0 then None
              else let freq = jdiv (Fin sampleRate) (peak_of c maxPos)
                   in if jlt freq (Fin MIN_FREQUENCY) \<or> jgt freq (Fin MAX_FREQUENCY) then None
                      else Some freq)"

section \<open>The loop\<close>

text \<open>
  One tick of \<open>loop\<close> on the frame it reads: the new value of \<open>smoothedFreq\<close>. The
  writes to the page are left out. \<open>!freq\<close> holds for \<open>null\<close> and for a falsy number.
\<close>

definition loop :: "jsnum \<Rightarrow> real list \<Rightarrow> real \<Rightarrow> jsnum" where
  "loop smoothedFreq sampleBuffer sampleRate =
     (case detectPitchAutoCorr sampleBuffer sampleRate of
        None \<Rightarrow> smoothedFreq
      | Some freq \<Rightarrow>
          if \<not> truthy freq then smoothedFreq
          else if truthy smoothedFreq
               then jadd (jmul (Fin smoothAlpha) freq)
                      (jmul (jsub (Fin 1) (Fin smoothAlpha)) smoothedFreq)
               else freq)"

text \<open>The ticks of a session, from the first: \<open>smoothedFreq\<close> starts at 0.\<close>

definition ticks :: "(real list \<times> real) list \<Rightarrow> jsnum" where
  "ticks frames = foldl (\<lambda>s (buf, rate). loop s buf rate) (Fin 0) frames"

section \<open>Auxiliary definitions\<close>

text \<open>
  The invariant of the \<open>for\<close> loop that started at \<open>d\<close> and has reached \<open>i\<close>:
  either nothing above \<open>-1\<close> has been seen, or \<open>maxPos\<close> is the first position
  of the largest value seen so far.
\<close>

definition max_inv :: "real list \<Rightarrow> nat \<Rightarrow> nat \<Rightarrow> real \<times> int \<Rightarrow> bool" where
  "max_inv c d i p =
     (case p of (mx, maxPos) \<Rightarrow>
        (maxPos = - 1 \<and> mx = - 1 \<and> (\<forall>j. d \<le> j \<and> j < i \<longrightarrow> c ! j \<le> - 1))
      \<or> (int d \<le> maxPos \<and> maxPos < int i \<and> mx = c ! nat maxPos
          \<and> (\<forall>j. d \<le> j \<and> j < nat maxPos \<longrightarrow> c ! j < mx)
          \<and> (\<forall>j. nat maxPos \<le> j \<and> j < i \<longrightarrow> c ! j \<le> mx)))"



section \<open>Facts about the note math\<close>

lemma midiToFreq_Fin: "midiToFreq (Fin m) = Fin (A4 * 2 powr ((m - 69) / 12))"
  by (simp add: midiToFreq_def jsub_def)

lemma freqToMidi_pos: "0 < f \<Longrightarrow> freqToMidi (Fin f) = Fin (of_int \<lfloor>12 * log 2 (f / A4) + 69 + 1 / 2\<rfloor>)"
  by (simp add: freqToMidi_def A4_def)

lemma centsOff_pos:
  "0 < f \<Longrightarrow> 0 < t \<Longrightarrow> centsOff (Fin f) (Fin t) = Fin (of_int \<lfloor>1200 * log 2 (f / t) + 1 / 2\<rfloor>)"
  by (simp add: centsOff_def not_less divide_nonneg_pos less_imp_le)

lemma log2_midiToFreq: "log 2 (A4 * 2 powr y / A4) = y"
  by (simp add: A4_def)



lemma ln2_ge_half: "1 / 2 \<le> ln (2::real)"
proof -
  have "exp (1 / 2) * exp (1 / 2) = exp (1::real)"
    by (simp add: exp_add [symmetric])
  then have "(exp (1 / 2))\<^sup>2 \<le> (2::real)\<^sup>2"
    using exp_le by (simp add: power2_eq_square)
  then have "exp (1 / 2) \<le> (2::real)"
    by (rule power2_le_imp_le) simp
  then have "ln (exp (1 / 2)) \<le> ln (2::real)"
    by (subst ln_le_cancel_iff) simp_all
  then show ?thesis by simp
qed

lemma log2_small: "0 \<le> log 2 (44001 / 44000) \<and> log 2 (44001 / 44000) < 1 / 2400"
proof -
  have "ln (1 + 1 / 44000) \<le> (1 / 44000 :: real)"
    by (rule ln_add_one_self_le_self) simp
  then have a: "ln (44001 / 44000) \<le> (1 / 44000 :: real)" by simp
  have "log 2 (44001 / 44000) = ln (44001 / 44000) / ln 2"
    by (simp add: log_def)
  also have "\<dots> \<le> (1 / 44000) / ln 2"
    using a by (intro divide_right_mono) simp_all
  also have "\<dots> \<le> (1 / 44000) / (1 / 2)"
    using ln2_ge_half by (intro divide_left_mono) simp_all
  finally have "log 2 (44001 / 44000) \<le> 1 / 22000" by simp
  moreover have "0 \<le> log 2 (44001 / 44000 :: real)"
    by (rule zero_le_log_cancel_iff [THEN iffD2]) simp_all
  ultimately show ?thesis by simp
qed


section \<open>Facts about the two scans of the autocorrelation\<close>

declare skip_slope.simps [simp del]
declare find_max.simps [simp del]

lemma skip_slope_ge: "d \<le> skip_slope c d"
proof (induction c d rule: skip_slope.induct)
  case (1 c d)
  then show ?case
    by (subst skip_slope.simps) (auto simp del: of_nat_less_iff)
qed

lemma skip_slope_lt: "d < length c \<Longrightarrow> skip_slope c d < length c"
proof (induction c d rule: skip_slope.induct)
  case (1 c d)
  then show ?case
    by (subst skip_slope.simps) auto
qed

lemma skip_slope_stop: "skip_slope c d + 1 < length c \<Longrightarrow> c ! skip_slope c d \<le> c ! (skip_slope c d + 1)"
proof (induction c d rule: skip_slope.induct)
  case (1 c d)
  show ?case
  proof (cases "int d < int (length c) - 1 \<and> c ! d > c ! (d + 1)")
    case True
    have e: "skip_slope c d = skip_slope c (d + 1)"
      by (subst skip_slope.simps) (simp only: True if_True simp_thms)
    from True 1 show ?thesis unfolding e by simp
  next
    case False
    have e: "skip_slope c d = d"
      by (subst skip_slope.simps) (simp only: False if_False simp_thms)
    from False 1(2) show ?thesis unfolding e by auto
  qed
qed

lemma skip_slope_prev: "d < skip_slope c d \<Longrightarrow> c ! (skip_slope c d - 1) > c ! skip_slope c d"
proof (induction c d rule: skip_slope.induct)
  case (1 c d)
  show ?case
  proof (cases "int d < int (length c) - 1 \<and> c ! d > c ! (d + 1)")
    case True
    have e: "skip_slope c d = skip_slope c (d + 1)"
      by (subst skip_slope.simps) (simp only: True if_True simp_thms)
    show ?thesis
    proof (cases "d + 1 < skip_slope c (d + 1)")
      case True
      with 1(1) \<open>int d < int (length c) - 1 \<and> c ! d > c ! (d + 1)\<close> show ?thesis
        unfolding e by simp
    next
      case False
      with skip_slope_ge [of "d + 1" c] have "skip_slope c (d + 1) = d + 1" by simp
      with True show ?thesis unfolding e by simp
    qed
  next
    case False
    have e: "skip_slope c d = d"
      by (subst skip_slope.simps) (simp only: False if_False simp_thms)
    from 1(2) show ?thesis unfolding e by simp
  qed
qed

lemma find_max_inv:
  "max_inv c d i p \<Longrightarrow> d \<le> i \<Longrightarrow> i \<le> length c \<Longrightarrow> max_inv c d (length c) (find_max c i p)"
proof (induction c i p rule: find_max.induct)
  case (1 c i mx maxPos)
  show ?case
  proof (cases "i < length c")
    case False
    with 1(3-) show ?thesis
      by (subst find_max.simps) simp
  next
    case inr: True
    show ?thesis
    proof (cases "c ! i > mx")
      case True
      have "max_inv c d (i + 1) (c ! i, int i)"
        using 1(3,4) True unfolding max_inv_def
        by (auto simp: less_Suc_eq) (metis not_le le_less_trans less_trans)
      with 1(1) [OF inr True] 1(4) inr True show ?thesis
        by (subst find_max.simps) simp
    next
      case False
      have "max_inv c d (i + 1) (mx, maxPos)"
        using 1(3,4) False unfolding max_inv_def
        by (auto simp: less_Suc_eq)
      with 1(2) [OF inr False] 1(4) inr False show ?thesis
        by (subst find_max.simps) simp
    qed
  qed
qed

lemma find_peak_facts:
  assumes "0 < find_peak c"
  defines "m \<equiv> nat (find_peak c)"
  shows "skip_slope c 0 \<le> m" "m < length c" "0 < m"
    "\<forall>j. skip_slope c 0 \<le> j \<and> j < m \<longrightarrow> c ! j < c ! m"
    "\<forall>j. m \<le> j \<and> j < length c \<longrightarrow> c ! j \<le> c ! m"
proof -
  let ?d = "skip_slope c 0"
  have "?d \<le> length c"
    using skip_slope_lt [of 0 c] by (cases "c = []") (simp_all add: skip_slope.simps less_imp_le)
  moreover have "max_inv c ?d ?d (- 1, - 1)"
    by (simp add: max_inv_def)
  ultimately have "max_inv c ?d (length c) (find_max c ?d (- 1, - 1))"
    by (intro find_max_inv) simp_all
  with assms(1) show "skip_slope c 0 \<le> m" "m < length c" "0 < m"
    "\<forall>j. skip_slope c 0 \<le> j \<and> j < m \<longrightarrow> c ! j < c ! m"
    "\<forall>j. m \<le> j \<and> j < length c \<longrightarrow> c ! j \<le> c ! m"
    unfolding max_inv_def find_peak_def m_def
    by (auto split: prod.splits)
qed


lemma peak_values:
  assumes "0 < find_peak c"
  shows "\<exists>a b g. y1_of c (find_peak c) = Fin a \<and> y2_of c (find_peak c) = Fin b
           \<and> y3_of c (find_peak c) = Fin g \<and> ((a < b \<and> g \<le> b) \<or> (b < a \<and> g = b))"
proof -
  define m where "m = nat (find_peak c)"
  let ?d = "skip_slope c 0"
  note f = find_peak_facts [OF assms, folded m_def]
  have mp: "find_peak c = int m" using assms by (simp add: m_def)
  define g where "g = (if m + 1 < length c \<and> c ! (m + 1) \<noteq> 0 then c ! (m + 1) else c ! m)"
  have y1: "y1_of c (find_peak c) = Fin (c ! (m - 1))"
    using f(2,3) by (simp add: y1_of_def read_at_def mp nat_diff_distrib')
  have y2: "y2_of c (find_peak c) = Fin (c ! m)"
    using f(2) by (simp add: y2_of_def read_at_def mp)
  have y3: "y3_of c (find_peak c) = Fin g"
    using f(2) by (simp add: y3_of_def y2_of_def read_at_def mp jor_def g_def nat_add_distrib)
  have gle: "g \<le> c ! m"
    using f(5) by (simp add: g_def)
  have shape: "(c ! (m - 1) < c ! m \<and> g \<le> c ! m) \<or> (c ! m < c ! (m - 1) \<and> g = c ! m)"
  proof (cases "?d < m")
    case True
    then have "?d \<le> m - 1 \<and> m - 1 < m" using f(3) by simp
    with f(4) have "c ! (m - 1) < c ! m" by blast
    with gle show ?thesis by simp
  next
    case False
    with f(1) have dm: "?d = m" by simp
    with f(3) have "0 < ?d" by simp
    then have "c ! (?d - 1) > c ! ?d" by (rule skip_slope_prev)
    then have a: "c ! m < c ! (m - 1)" by (simp add: dm)
    have "g = c ! m"
    proof (cases "m + 1 < length c")
      case True
      then have "c ! m \<le> c ! (m + 1)"
        using skip_slope_stop [of c 0] by (simp add: dm)
      moreover have "c ! (m + 1) \<le> c ! m" using f(5) True by simp
      ultimately show ?thesis by (simp add: g_def)
    next
      case False
      then show ?thesis by (simp add: g_def)
    qed
    with a show ?thesis by simp
  qed
  from y1 y2 y3 shape show ?thesis by blast
qed

lemma interp_arith:
  fixes a b g :: real
  assumes "(a < b \<and> g \<le> b) \<or> (b < a \<and> g = b)"
  shows "2 * (2 * b - a - g) \<noteq> 0"
    and "- (1 / 2) \<le> (g - a) / (2 * (2 * b - a - g))"
    and "(g - a) / (2 * (2 * b - a - g)) \<le> 1 / 2"
proof -
  from assms show "2 * (2 * b - a - g) \<noteq> 0" by auto
  from assms show "- (1 / 2) \<le> (g - a) / (2 * (2 * b - a - g))"
  proof
    assume h: "a < b \<and> g \<le> b"
    then have "0 < 2 * (2 * b - a - g)" by simp
    then show ?thesis using h by (simp add: pos_le_divide_eq algebra_simps)
  next
    assume h: "b < a \<and> g = b"
    then have "g - a \<noteq> 0" and "2 * b - a - g = g - a" by simp_all
    then have e: "(g - a) / (2 * (2 * b - a - g)) = 1 / 2" by simp
    show ?thesis unfolding e by simp
  qed
  from assms show "(g - a) / (2 * (2 * b - a - g)) \<le> 1 / 2"
  proof
    assume h: "a < b \<and> g \<le> b"
    then have "0 < 2 * (2 * b - a - g)" by simp
    then show ?thesis using h by (simp add: pos_divide_le_eq algebra_simps)
  next
    assume h: "b < a \<and> g = b"
    then have "g - a \<noteq> 0" and "2 * b - a - g = g - a" by simp_all
    then have e: "(g - a) / (2 * (2 * b - a - g)) = 1 / 2" by simp
    show ?thesis unfolding e by simp
  qed
qed

lemma peak_finite:
  assumes "0 < find_peak c"
  shows "\<exists>den p. shift_den c (find_peak c) = Fin den \<and> den \<noteq> 0
           \<and> jsub (jsub (jmul (Fin 2) (y2_of c (find_peak c))) (y1_of c (find_peak c)))
                (y3_of c (find_peak c)) = Fin (den / 2)
           \<and> peak_of c (find_peak c) = Fin p \<and> 1 / 2 \<le> p"
proof -
  from peak_values [OF assms] obtain a b g where
    y: "y1_of c (find_peak c) = Fin a" "y2_of c (find_peak c) = Fin b" "y3_of c (find_peak c) = Fin g"
    and sh: "(a < b \<and> g \<le> b) \<or> (b < a \<and> g = b)" by blast
  note ar = interp_arith [OF sh]
  have den: "shift_den c (find_peak c) = Fin (2 * (2 * b - a - g))"
    by (simp add: shift_den_def y jsub_def)
  have inner: "jsub (jsub (jmul (Fin 2) (y2_of c (find_peak c))) (y1_of c (find_peak c)))
                (y3_of c (find_peak c)) = Fin (2 * (2 * b - a - g) / 2)"
    by (simp add: y jsub_def)
  have "shift_of c (find_peak c) = Fin ((g - a) / (2 * (2 * b - a - g)))"
    using ar(1) by (simp only: shift_of_def den y jsub_def jneg.simps jadd.simps jdiv.simps if_False) simp
  then have pk: "peak_of c (find_peak c)
      = Fin (real_of_int (find_peak c) + (g - a) / (2 * (2 * b - a - g)))"
    by (simp add: peak_of_def)
  have "1 \<le> real_of_int (find_peak c)" using assms by simp
  with ar(2) have "1 / 2 \<le> real_of_int (find_peak c) + (g - a) / (2 * (2 * b - a - g))"
    by linarith
  with den inner pk ar(1) show ?thesis by blast
qed

lemma detect_Some_range:
  assumes "detectPitchAutoCorr buf sampleRate = Some v"
  shows "\<exists>f. v = Fin f \<and> MIN_FREQUENCY \<le> f \<and> f \<le> MAX_FREQUENCY"
proof -
  let ?c = "autocorr buf"
  from assms have pos: "0 < find_peak ?c"
    by (simp add: detectPitchAutoCorr_def Let_def split: if_splits)
  from peak_finite [OF pos] obtain p where p: "peak_of ?c (find_peak ?c) = Fin p" "1 / 2 \<le> p"
    by blast
  then have fr: "jdiv (Fin sampleRate) (peak_of ?c (find_peak ?c)) = Fin (sampleRate / p)"
    by simp
  from assms show ?thesis
    by (auto simp add: detectPitchAutoCorr_def Let_def fr jgt_def not_less split: if_splits)
qed






section \<open>The estimator on three small frames\<close>

lemmas detect_eval =
  detectPitchAutoCorr_def rms_of_def sum_squares_def autocorr_def corr_at_def find_peak_def
  peak_of_def shift_of_def shift_den_def y1_of_def y2_of_def y3_of_def read_at_def jor_def
  jsub_def jgt_def inf_of_sign_def MIN_RMS_def MIN_FREQUENCY_def MAX_FREQUENCY_def
  skip_slope.simps find_max.simps upt_rec Let_def


lemma detect_square_1000: "detectPitchAutoCorr [1, - 1, 1, - 1] 1000 = Some (Fin (8000 / 17))"
  by (simp add: detect_eval)

lemma detect_square_2000: "detectPitchAutoCorr [1, - 1, 1, - 1] 2000 = Some (Fin (16000 / 17))"
  by (simp add: detect_eval)

lemma detect_zeros: "detectPitchAutoCorr [0, 0, 0, 0] 1000 = None"
  by (simp add: detect_eval)

section \<open>Facts about the loop\<close>

lemma loop_None: "detectPitchAutoCorr buf r = None \<Longrightarrow> loop s buf r = s"
  by (simp add: loop_def)

lemma loop_first:
  assumes "detectPitchAutoCorr buf r = Some f"
  shows "loop (Fin 0) buf r = f"
proof -
  from detect_Some_range [OF assms] obtain x where "f = Fin x" "MIN_FREQUENCY \<le> x" by blast
  then have "truthy f" by (simp add: MIN_FREQUENCY_def)
  with assms show ?thesis by (simp add: loop_def)
qed

lemma loop_later:
  assumes "detectPitchAutoCorr buf r = Some f" and "s \<noteq> 0"
  shows "\<exists>x. f = Fin x \<and> loop (Fin s) buf r = Fin (2 / 10 * x + 8 / 10 * s)"
proof -
  from detect_Some_range [OF assms(1)] obtain x where x: "f = Fin x" "MIN_FREQUENCY \<le> x" by blast
  then have "truthy f" by (simp add: MIN_FREQUENCY_def)
  with assms x(1) show ?thesis by (simp add: loop_def smoothAlpha_def jsub_def)
qed

lemma ticks_snoc: "ticks (fs @ [(buf, r)]) = loop (ticks fs) buf r"
  by (simp add: ticks_def)

lemma ticks_state:
  "if \<forall>(b, q) \<in> set fs. detectPitchAutoCorr b q = None then ticks fs = Fin 0
   else \<exists>s. ticks fs = Fin s \<and> MIN_FREQUENCY \<le> s \<and> s \<le> MAX_FREQUENCY"
proof (induction fs rule: rev_induct)
  case Nil
  show ?case by (simp add: ticks_def)
next
  case (snoc fr fs)
  obtain buf r where fr: "fr = (buf, r)" by (cases fr)
  show ?case
  proof (cases "detectPitchAutoCorr buf r")
    case None
    then have "ticks (fs @ [fr]) = ticks fs"
      by (simp add: fr ticks_snoc loop_None)
    with snoc None show ?thesis by (simp add: fr)
  next
    case (Some f)
    from detect_Some_range [OF Some] obtain x where
      x: "f = Fin x" "MIN_FREQUENCY \<le> x" "x \<le> MAX_FREQUENCY" by blast
    have some: "\<not> (\<forall>(b, q) \<in> set (fs @ [fr]). detectPitchAutoCorr b q = None)"
      using Some by (simp add: fr)
    show ?thesis
    proof (cases "\<forall>(b, q) \<in> set fs. detectPitchAutoCorr b q = None")
      case True
      with snoc have "ticks fs = Fin 0" by simp
      then have "ticks (fs @ [fr]) = Fin x"
        using loop_first [OF Some] by (simp add: fr ticks_snoc x(1))
      with x(2,3) some show ?thesis by (simp only: if_False) simp
    next
      case False
      with snoc obtain s where
        s: "ticks fs = Fin s" "MIN_FREQUENCY \<le> s" "s \<le> MAX_FREQUENCY" by auto
      then have "s \<noteq> 0" by (simp add: MIN_FREQUENCY_def)
      from loop_later [OF Some this]
      have "ticks (fs @ [fr]) = Fin (2 / 10 * x + 8 / 10 * s)"
        by (simp add: fr ticks_snoc s(1) x(1))
      moreover have "MIN_FREQUENCY \<le> 2 / 10 * x + 8 / 10 * s"
        using x(2) s(2) by simp
      moreover have "2 / 10 * x + 8 / 10 * s \<le> MAX_FREQUENCY"
        using x(3) s(3) by simp
      ultimately show ?thesis using some by (simp only: if_False) simp
    qed
  qed
qed

section \<open>The claims\<close>










text \<open>
  C5. The smoothed pitch changes only on a tick whose estimate is not \<open>null\<close>: a
  \<open>null\<close> estimate leaves it as it is; the first estimate \<open>f\<close> ever makes it \<open>f\<close>; every
  later estimate \<open>f\<close> makes it \<open>0.2 * f + 0.8 *\<close> its previous value. Here \<open>ticks fs\<close> is
  the smoothed pitch after the frames \<open>fs\<close>, and \<open>(buf, r)\<close> is the frame of the next tick.
\<close>

theorem smoothed_pitch_update:
  "(detectPitchAutoCorr buf r = None \<longrightarrow> ticks (fs @ [(buf, r)]) = ticks fs)
   \<and> (detectPitchAutoCorr buf r = Some f
        \<and> (\<forall>(b, q) \<in> set fs. detectPitchAutoCorr b q = None)
      \<longrightarrow> ticks (fs @ [(buf, r)]) = f)
   \<and> (detectPitchAutoCorr buf r = Some f
        \<and> (\<exists>(b, q) \<in> set fs. detectPitchAutoCorr b q \<noteq> None)
      \<longrightarrow> (\<exists>x s. f = Fin x \<and> ticks fs = Fin s
            \<and> ticks (fs @ [(buf, r)]) = Fin (2 / 10 * x + 8 / 10 * s)))"
proof (intro conjI impI)
  assume "detectPitchAutoCorr buf r = None"
  then show "ticks (fs @ [(buf, r)]) = ticks fs"
    by (simp add: ticks_snoc loop_None)
next
  assume a: "detectPitchAutoCorr buf r = Some f
    \<and> (\<forall>(b, q) \<in> set fs. detectPitchAutoCorr b q = None)"
  with ticks_state [of fs] have "ticks fs = Fin 0" by simp
  with a show "ticks (fs @ [(buf, r)]) = f"
    by (simp add: ticks_snoc loop_first)
next
  assume a: "detectPitchAutoCorr buf r = Some f
    \<and> (\<exists>(b, q) \<in> set fs. detectPitchAutoCorr b q \<noteq> None)"
  then have "\<not> (\<forall>(b, q) \<in> set fs. detectPitchAutoCorr b q = None)"
    by (auto simp add: case_prod_beta)
  with ticks_state [of fs] obtain s where
    s: "ticks fs = Fin s" "MIN_FREQUENCY \<le> s" by auto
  then have "s \<noteq> 0" by (simp add: MIN_FREQUENCY_def)
  from a have "detectPitchAutoCorr buf r = Some f" by simp
  from loop_later [OF this \<open>s \<noteq> 0\<close>] s(1)
  show "\<exists>x s. f = Fin x \<and> ticks fs = Fin s
      \<and> ticks (fs @ [(buf, r)]) = Fin (2 / 10 * x + 8 / 10 * s)"
    by (auto simp add: ticks_snoc)
qed

theorem smoothed_pitch_update_witness:
  "ticks [([1, - 1, 1, - 1], 1000), ([0, 0, 0, 0], 1000)] = ticks [([1, - 1, 1, - 1], 1000)]
   \<and> ticks [([0, 0, 0, 0], 1000), ([1, - 1, 1, - 1], 1000)] = Fin (8000 / 17)
   \<and> ticks [([1, - 1, 1, - 1], 1000), ([1, - 1, 1, - 1], 2000)] = Fin (9600 / 17)"
proof -
  have sq: "ticks [([1, - 1, 1, - 1], 1000)] = Fin (8000 / 17)"
    using ticks_snoc [of "[]" "[1, - 1, 1, - 1]" 1000] loop_first [OF detect_square_1000]
    by (simp add: ticks_def)
  have 1: "ticks [([1, - 1, 1, - 1], 1000), ([0, 0, 0, 0], 1000)] = ticks [([1, - 1, 1, - 1], 1000)]"
    using smoothed_pitch_update [of "[0, 0, 0, 0]" 1000 "[([1, - 1, 1, - 1], 1000)]"] detect_zeros
    by simp
  have 2: "ticks [([0, 0, 0, 0], 1000), ([1, - 1, 1, - 1], 1000)] = Fin (8000 / 17)"
    using smoothed_pitch_update [of "[1, - 1, 1, - 1]" 1000 "[([0, 0, 0, 0], 1000)]" "Fin (8000 / 17)"]
      detect_zeros detect_square_1000
    by simp
  have ex: "\<exists>(b, q) \<in> set [([1, - 1, 1, - 1], 1000 :: real)]. detectPitchAutoCorr b q \<noteq> None"
    by (simp add: detect_square_1000)
  from smoothed_pitch_update
    [of "[1, - 1, 1, - 1]" 2000 "[([1, - 1, 1, - 1], 1000)]" "Fin (16000 / 17)"]
    detect_square_2000 ex
  obtain x s where "Fin (16000 / 17) = Fin x" "ticks [([1, - 1, 1, - 1], 1000)] = Fin s"
    "ticks ([([1, - 1, 1, - 1], 1000)] @ [([1, - 1, 1, - 1], 2000)]) = Fin (2 / 10 * x + 8 / 10 * s)"
    by blast
  with sq have 3: "ticks [([1, - 1, 1, - 1], 1000), ([1, - 1, 1, - 1], 2000)] = Fin (9600 / 17)"
    by simp
  from 1 2 3 show ?thesis by simp
qed

text \<open>
  C6. For every integer note index \<open>n\<close> from 21 to 108, the frequency of the note maps
  back to the note: \<open>freqToMidi (midiToFreq n) = n\<close>.
\<close>

theorem note_roundtrip: "21 \<le> n \<Longrightarrow> n \<le> 108 \<Longrightarrow> freqToMidi (midiToFreq (Fin (of_int n))) = Fin (of_int n)"
proof -
  let ?y = "(real_of_int n - 69) / 12"
  have pos: "0 < A4 * 2 powr ?y" by (simp add: A4_def)
  have "12 * log 2 (A4 * 2 powr ?y / A4) + 69 + 1 / 2 = real_of_int n + 1 / 2"
    by (simp only: log2_midiToFreq) (simp add: field_simps)
  moreover have "\<lfloor>real_of_int n + 1 / 2\<rfloor> = n" by linarith
  ultimately show ?thesis
    by (simp only: midiToFreq_Fin freqToMidi_pos [OF pos])
qed

theorem note_roundtrip_witness:
  "(21::int) \<le> 69 \<and> (69::int) \<le> 108 \<and> freqToMidi (midiToFreq (Fin 69)) = Fin 69"
  using note_roundtrip [of 69] by simp




text \<open>
  C8 (as amended). For a positive target, the rounded cents offset \<open>centsOff f target\<close>
  never decreases when the positive frequency \<open>f\<close> grows.
\<close>

theorem centsOff_nondecreasing:
  assumes "0 < f1" "f1 \<le> f2" "0 < t"
  shows "\<exists>a b. centsOff (Fin f1) (Fin t) = Fin (of_int a) \<and> centsOff (Fin f2) (Fin t) = Fin (of_int b) \<and> a \<le> b"
proof -
  have "f1 / t \<le> f2 / t" and "0 < f1 / t"
    using assms by (simp_all add: divide_right_mono)
  then have "log 2 (f1 / t) \<le> log 2 (f2 / t)"
    by (intro log_mono) simp_all
  then have "\<lfloor>1200 * log 2 (f1 / t) + 1 / 2\<rfloor> \<le> \<lfloor>1200 * log 2 (f2 / t) + 1 / 2\<rfloor>"
    by (intro floor_mono) simp
  moreover have "0 < f2" using assms by simp
  ultimately show ?thesis
    using assms by (simp add: centsOff_pos)
qed

theorem centsOff_nondecreasing_witness:
  "(0::real) < 1 \<and> (1::real) \<le> 2
   \<and> (\<exists>a b. centsOff (Fin 1) (Fin 1) = Fin (of_int a) \<and> centsOff (Fin 2) (Fin 1) = Fin (of_int b)
         \<and> a \<le> b)"
  using centsOff_nondecreasing [of 1 2 1] by simp

text \<open>
  The claim C8 as it stands asks for a strict increase; the frequencies 440 and 440.01
  are both 0 cents from the target 440.
\<close>

theorem centsOff_not_strictly_increasing:
  "(440::real) < 44001 / 100 \<and> centsOff (Fin 440) (Fin 440) = Fin 0
    \<and> centsOff (Fin (44001 / 100)) (Fin 440) = Fin 0
    \<and> \<not> jlt (centsOff (Fin 440) (Fin 440)) (centsOff (Fin (44001 / 100)) (Fin 440))"
proof -
  have r: "(44001 / 100) / 440 = (44001 / 44000 :: real)" by simp
  have "\<lfloor>1200 * log 2 (44001 / 44000) + 1 / 2\<rfloor> = 0"
    using log2_small by linarith
  then have b: "centsOff (Fin (44001 / 100)) (Fin 440) = Fin 0"
    by (simp add: centsOff_pos r)
  have a: "centsOff (Fin 440) (Fin 440) = Fin 0"
    by (simp add: centsOff_pos)
  show ?thesis by (simp add: a b)
qed






end
